theory Spec2Isabelle
  imports Main "HOL-Library.Word"
begin

section \<open>Basic types: bytes, panics, checked indexing\<close>

type_synonym byte = "8 word"

text \<open>
  A Go run-time panic. \<open>IndexOutOfRange\<close> is raised by an index expression outside
  \<open>0..len-1\<close>, \<open>Unreached\<close> by \<open>panic("unreached")\<close> at the end of \<open>less\<close>,
  \<open>UnsupportedType t\<close> by \<open>panic("unsupported type " + req.Type)\<close> in \<open>RoundTrip\<close>.
\<close>

datatype panic = IndexOutOfRange | Unreached | UnsupportedType string

text \<open>\<open>xs[i]\<close> as an expression and \<open>xs[i] = v\<close> as a statement, on a slice held by value.\<close>

definition at :: "'a list \<Rightarrow> nat \<Rightarrow> panic + 'a" where
  "at xs i = (if i < length xs then Inr (xs ! i) else Inl IndexOutOfRange)"

definition at_int :: "'a list \<Rightarrow> int \<Rightarrow> panic + 'a" where
  "at_int xs i = (if 0 \<le> i \<and> i < int (length xs) then Inr (xs ! nat i) else Inl IndexOutOfRange)"

definition put :: "'a list \<Rightarrow> nat \<Rightarrow> 'a \<Rightarrow> panic + 'a list" where
  "put xs i v = (if i < length xs then Inr (xs[i := v]) else Inl IndexOutOfRange)"

section \<open>Raw values and their byte slices\<close>

text \<open>
  \<open>convertClass\<close> writes through the slice \<open>v.FullBytes\<close>, and in a decoded value
  \<open>Bytes\<close> and \<open>FullBytes\<close> are two windows on the same buffer. The bytes therefore live
  in a store (address to byte), and a slice is the address of its first element and its
  length. Capacity plays no role in this file (nothing appends) and is left out.
  The nil slice has length 0.
\<close>

type_synonym store = "nat \<Rightarrow> byte"

record slice =
  slice_ptr :: nat
  slice_len :: nat

definition nil_slice :: slice where
  "nil_slice = \<lparr>slice_ptr = 0, slice_len = 0\<rparr>"

definition zero_store :: store where
  "zero_store = (\<lambda>a. 0)"

definition slice_cells :: "slice \<Rightarrow> nat set" where
  "slice_cells s = {slice_ptr s ..< slice_ptr s + slice_len s}"

definition slice_bytes :: "store \<Rightarrow> slice \<Rightarrow> byte list" where
  "slice_bytes m s = map m [slice_ptr s ..< slice_ptr s + slice_len s]"

definition slice_put :: "store \<Rightarrow> slice \<Rightarrow> nat \<Rightarrow> byte \<Rightarrow> panic + store" where
  "slice_put m s i b =
     (if i < slice_len s then Inr (m(slice_ptr s + i := b)) else Inl IndexOutOfRange)"

text \<open>
  \<open>asn1.RawValue\<close> of Go's standard library \<open>encoding/asn1\<close>:
  \<^verbatim>\<open>struct { Class, Tag int; IsCompound bool; Bytes []byte; FullBytes []byte }\<close>.
\<close>

record RawValue =
  Class :: int
  Tag :: int
  IsCompound :: bool
  Bytes :: slice
  FullBytes :: slice

text \<open>Reserved binding values (the \<open>var\<close> block at the top of the source).\<close>

definition null :: RawValue where
  "null = \<lparr>Class = 0, Tag = 5, IsCompound = False, Bytes = nil_slice, FullBytes = nil_slice\<rparr>"

definition noSuchObject :: RawValue where
  "noSuchObject = \<lparr>Class = 2, Tag = 0, IsCompound = False, Bytes = nil_slice, FullBytes = nil_slice\<rparr>"

definition noSuchInstance :: RawValue where
  "noSuchInstance = \<lparr>Class = 2, Tag = 1, IsCompound = False, Bytes = nil_slice, FullBytes = nil_slice\<rparr>"

definition endOfMibView :: RawValue where
  "endOfMibView = \<lparr>Class = 2, Tag = 2, IsCompound = False, Bytes = nil_slice, FullBytes = nil_slice\<rparr>"

section \<open>convertClass\<close>

text \<open>
  \<^verbatim>\<open>
  func convertClass(v *asn1.RawValue) {
      if v.Class != 1 { return }
      switch v.Tag {
      case 0, 4:       v.FullBytes[0] = 0x04; v.Class = 0; v.Tag = 4
      case 1, 2, 3, 6: v.FullBytes[0] = 0x02; v.Class = 0; v.Tag = 2
      }
  }
  \<close>
  The function takes the store and the value and returns both as they are afterwards, or
  the panic of the index expression.
\<close>

definition convertClass :: "store \<Rightarrow> RawValue \<Rightarrow> panic + (store \<times> RawValue)" where
  "convertClass m v =
     (if Class v \<noteq> 1 then Inr (m, v)
      else if Tag v = 0 \<or> Tag v = 4 then
        (case slice_put m (FullBytes v) 0 0x04 of
           Inl p \<Rightarrow> Inl p
         | Inr m' \<Rightarrow> Inr (m', v\<lparr>Class := 0, Tag := 4\<rparr>))
      else if Tag v = 1 \<or> Tag v = 2 \<or> Tag v = 3 \<or> Tag v = 6 then
        (case slice_put m (FullBytes v) 0 0x02 of
           Inl p \<Rightarrow> Inl p
         | Inr m' \<Rightarrow> Inr (m', v\<lparr>Class := 0, Tag := 2\<rparr>))
      else Inr (m, v))"

text \<open>Running one call after another: a panic of the first ends the run.\<close>

definition and_then :: "panic + 'a \<Rightarrow> ('a \<Rightarrow> panic + 'b) \<Rightarrow> panic + 'b" where
  "and_then r f = (case r of Inl p \<Rightarrow> Inl p | Inr x \<Rightarrow> f x)"

section \<open>Bindings and the order of the MIB tree\<close>

text \<open>
  An \<open>asn1.ObjectIdentifier\<close> is a \<open>[]int\<close>. Its components are only compared, never
  computed with, so they are unbounded integers here.
\<close>

record Binding =
  Name :: "int list"
  Value :: RawValue

text \<open>
  The three loops of \<open>less\<close> have the same body and differ in their bound only:
  \<^verbatim>\<open>
  for i := 0; i < n; i++ {
      switch {
      case a.Name[i] < b.Name[i]:  return true
      case a.Name[i] == b.Name[i]: continue
      case a.Name[i] > b.Name[i]:  return false
      }
  }
  \<close>
  \<open>less_loop a b i n\<close> is that loop from index \<open>i\<close> on: \<open>Some r\<close> when the loop returns
  \<open>r\<close>, \<open>None\<close> when it runs to its end.
\<close>

function less_loop :: "int list \<Rightarrow> int list \<Rightarrow> nat \<Rightarrow> nat \<Rightarrow> panic + bool option" where
  "less_loop a b i n =
     (if i < n then
        (case at a i of
           Inl p \<Rightarrow> Inl p
         | Inr x \<Rightarrow>
             (case at b i of
                Inl p \<Rightarrow> Inl p
              | Inr y \<Rightarrow>
                  if x < y then Inr (Some True)
                  else if x = y then less_loop a b (i + 1) n
                  else Inr (Some False)))
      else Inr None)"
  by pat_completeness auto
termination
  by (relation "measure (\<lambda>(a, b, i, n). n - i)") auto

definition less :: "Binding \<Rightarrow> Binding \<Rightarrow> panic + bool" where
  "less a b =
     (if length (Name a) < length (Name b) then
        (case less_loop (Name a) (Name b) 0 (length (Name a)) of
           Inl p \<Rightarrow> Inl p
         | Inr (Some r) \<Rightarrow> Inr r
         | Inr None \<Rightarrow> Inr True)
      else if length (Name a) = length (Name b) then
        (case less_loop (Name a) (Name b) 0 (length (Name a)) of
           Inl p \<Rightarrow> Inl p
         | Inr (Some r) \<Rightarrow> Inr r
         | Inr None \<Rightarrow> Inr False)
      else if length (Name a) > length (Name b) then
        (case less_loop (Name a) (Name b) 0 (length (Name b)) of
           Inl p \<Rightarrow> Inl p
         | Inr (Some r) \<Rightarrow> Inr r
         | Inr None \<Rightarrow> Inr False)
      else Inl Unreached)"

section \<open>Requests, responses and the PDU that RoundTrip builds\<close>

text \<open>\<open>ID\<close> is an \<open>int32\<close>; the other numbers are Go \<open>int\<close>s that are only copied and compared.\<close>

record Request =
  req_ID :: "32 word"
  req_Type :: string
  req_Bindings :: "Binding list"
  req_NonRepeaters :: int
  req_MaxRepetitions :: int

record Response =
  resp_ID :: "32 word"
  resp_ErrorStatus :: int
  resp_ErrorIndex :: int
  resp_Bindings :: "Binding list"

text \<open>
  The anonymous structs that \<open>RoundTrip\<close> hands to \<open>asn1.Marshal\<close>. The \<open>Data\<close> field of
  the Get and GetNext cases has the same four fields, under the tags
  \<open>application,tag:0\<close> and \<open>application,tag:1\<close>; GetBulk has its own layout under
  \<open>application,tag:5\<close>. The field order is the order of the encoded sequence.
\<close>

record GetData =
  RequestID :: "32 word"
  ErrorStatus :: int
  ErrorIndex :: int
  Bindings :: "Binding list"

record GetBulkData =
  bulk_RequestID :: "32 word"
  NonRepeaters :: int
  MaxRepetitions :: int
  bulk_Bindings :: "Binding list"

datatype pdu = Get_pdu GetData | GetNext_pdu GetData | GetBulk_pdu GetBulkData

record message =
  Version :: int
  Community :: "byte list"
  Data :: pdu

definition bytes_of_string :: "string \<Rightarrow> byte list" where
  "bytes_of_string s = map of_char s"

definition string_of_bytes :: "byte list \<Rightarrow> string" where
  "string_of_bytes bs = map (\<lambda>b. char_of (unat b)) bs"

text \<open>
  \<open>RoundTrip\<close> up to its call of \<open>asn1.Marshal\<close>: the request as it is left behind
  (every binding's value overwritten with \<open>null\<close>) and the struct \<open>p\<close> that is marshalled.
  The fields the source does not assign keep Go's zero value. The network exchange after
  that is outside this model.
\<close>

definition RoundTrip_build :: "string \<Rightarrow> Request \<Rightarrow> panic + (Request \<times> message)" where
  "RoundTrip_build community req =
     (let bs = map (\<lambda>b. b\<lparr>Value := null\<rparr>) (req_Bindings req);
          req' = req\<lparr>req_Bindings := bs\<rparr>
      in if req_Type req = ''Get'' then
           Inr (req', \<lparr>Version = 1, Community = bytes_of_string community,
                 Data = Get_pdu \<lparr>RequestID = req_ID req', ErrorStatus = 0, ErrorIndex = 0,
                                 Bindings = req_Bindings req'\<rparr>\<rparr>)
         else if req_Type req = ''GetNext'' then
           Inr (req', \<lparr>Version = 1, Community = bytes_of_string community,
                 Data = GetNext_pdu \<lparr>RequestID = req_ID req', ErrorStatus = 0, ErrorIndex = 0,
                                     Bindings = req_Bindings req'\<rparr>\<rparr>)
         else if req_Type req = ''GetBulk'' then
           Inr (req', \<lparr>Version = 1, Community = bytes_of_string community,
                 Data = GetBulk_pdu \<lparr>bulk_RequestID = req_ID req', NonRepeaters = 0,
                                     MaxRepetitions = req_MaxRepetitions req',
                                     bulk_Bindings = req_Bindings req'\<rparr>\<rparr>)
         else Inl (UnsupportedType (req_Type req)))"

section \<open>Error status\<close>

text \<open>The table \<open>errorText\<close>, in the order of the source.\<close>

definition errorText :: "(int \<times> string) list" where
  "errorText =
     [(0, ''no error''),
      (1, ''too big''),
      (2, ''no such name''),
      (3, ''bad value''),
      (4, ''read only''),
      (5, ''gen err''),
      (6, ''no access''),
      (7, ''wrong type''),
      (8, ''wrong length''),
      (9, ''wrong encoding''),
      (10, ''wrong value''),
      (11, ''no creation''),
      (12, ''inconsistent value''),
      (13, ''resource unavailable''),
      (14, ''commit failed''),
      (15, ''undo failed''),
      (16, ''authorization error''),
      (17, ''not writable''),
      (18, ''inconsistent name'')]"

text \<open>Reading a Go map at a key it does not hold gives the zero value, here the empty string.\<close>

definition errorText_lookup :: "int \<Rightarrow> string" where
  "errorText_lookup e = (case map_of errorText e of None \<Rightarrow> [] | Some s \<Rightarrow> s)"

text \<open>The verb \<open>%d\<close> of \<open>fmt.Sprintf\<close>: decimal digits, with a minus sign below zero.\<close>

definition digit_char :: "nat \<Rightarrow> char" where
  "digit_char d = char_of (48 + d)"

function decimal :: "nat \<Rightarrow> string" where
  "decimal n = (if n < 10 then [digit_char n] else decimal (n div 10) @ [digit_char (n mod 10)])"
  by pat_completeness auto
termination
  by (relation "measure (\<lambda>n. n)") auto

definition format_d :: "int \<Rightarrow> string" where
  "format_d i = (if i < 0 then CHR ''-'' # decimal (nat (- i)) else decimal (nat i))"

text \<open>
  \<^verbatim>\<open>
  func (e errorStatus) String() string {
      s := errorText[e]
      if s == "" { s = fmt.Sprintf("code %d", e) }
      return s
  }
  \<close>
\<close>

definition errorStatus_String :: "int \<Rightarrow> string" where
  "errorStatus_String e =
     (let s = errorText_lookup e
      in if s = [] then ''code '' @ format_d e else s)"

section \<open>check\<close>

text \<open>
  An error of \<open>check\<close> is the text of an \<open>fmt.Errorf\<close> call. Each constructor stands for
  one format string of the source and carries the arguments of the call:
  \<^item> \<open>IdMismatch\<close>: \<open>"id mismatch"\<close>
  \<^item> \<open>ServerError s\<close>: \<open>"server error: %v"\<close>, with the \<open>String\<close> form of the status
  \<^item> \<open>BindingError b e\<close>: \<open>"binding %+v: %v"\<close>
  \<^item> \<open>NoBindings\<close>, \<open>MissingBindings\<close>, \<open>ExtraneousBindings\<close>: the three count errors
  \<^item> \<open>NoSuchObjectError n\<close>: \<open>"%v: no such object"\<close>, and likewise
    \<open>NoSuchInstanceError\<close>, \<open>EndOfMibViewError\<close>, \<open>UnexpectedNull\<close> and \<open>MissingPrefix\<close>
    (\<open>"%v: missing [1 3] prefix"\<close>)
  \<^item> \<open>InvalidResponse e\<close>: \<open>"invalid response: %v"\<close>, added by the deferred function.
\<close>

datatype error =
    IdMismatch
  | ServerError string
  | BindingError Binding error
  | NoBindings
  | MissingBindings
  | ExtraneousBindings
  | NoSuchObjectError "int list"
  | NoSuchInstanceError "int list"
  | EndOfMibViewError "int list"
  | UnexpectedNull "int list"
  | MissingPrefix "int list"
  | InvalidResponse error

text \<open>
  \<^verbatim>\<open>
  func hasPrefix(instance, prefix []int) bool {
      if len(instance) < len(prefix) { return false }
      for i := range prefix {
          if instance[i] != prefix[i] { return false }
      }
      return true
  }
  \<close>
\<close>

function hasPrefix_loop :: "int list \<Rightarrow> int list \<Rightarrow> nat \<Rightarrow> panic + bool" where
  "hasPrefix_loop instance prefix i =
     (if i < length prefix then
        (case at instance i of
           Inl p \<Rightarrow> Inl p
         | Inr x \<Rightarrow>
             (case at prefix i of
                Inl p \<Rightarrow> Inl p
              | Inr y \<Rightarrow>
                  if x \<noteq> y then Inr False
                  else hasPrefix_loop instance prefix (i + 1)))
      else Inr True)"
  by pat_completeness auto
termination
  by (relation "measure (\<lambda>(instance, prefix, i). length prefix - i)") auto

definition hasPrefix :: "int list \<Rightarrow> int list \<Rightarrow> panic + bool" where
  "hasPrefix instance prefix =
     (if length instance < length prefix then Inr False
      else hasPrefix_loop instance prefix 0)"

text \<open>The closure \<open>eq\<close> of \<open>check\<close>.\<close>

definition check_eq :: "RawValue \<Rightarrow> RawValue \<Rightarrow> bool" where
  "check_eq a b = (Class a = Class b \<and> Tag a = Tag b)"

text \<open>
  The loop over the bindings of the response:
  \<^verbatim>\<open>
  for _, b := range resp.Bindings {
      switch v := b.Value; {
      case eq(v, noSuchObject):   return fmt.Errorf("%v: no such object", b.Name)
      case eq(v, noSuchInstance): return fmt.Errorf("%v: no such instance", b.Name)
      case eq(v, endOfMibView):   return fmt.Errorf("%v: end of mib view", b.Name)
      case eq(v, null):           return fmt.Errorf("%v: unexpected null", b.Name)
      }
      if !hasPrefix(b.Name, []int{1, 3}) {
          return fmt.Errorf("%v: missing [1 3] prefix", b.Name)
      }
  }
  \<close>
  \<open>check_binding b\<close> is the body for one binding and \<open>check_loop\<close> the loop:
  \<open>Some e\<close> when the error \<open>e\<close> is returned, \<open>None\<close> when the body, or the
  loop, runs to its end.
\<close>

definition check_binding :: "Binding \<Rightarrow> panic + error option" where
  "check_binding b =
     (let v = Value b
      in if check_eq v noSuchObject then Inr (Some (NoSuchObjectError (Name b)))
         else if check_eq v noSuchInstance then Inr (Some (NoSuchInstanceError (Name b)))
         else if check_eq v endOfMibView then Inr (Some (EndOfMibViewError (Name b)))
         else if check_eq v null then Inr (Some (UnexpectedNull (Name b)))
         else
           (case hasPrefix (Name b) [1, 3] of
              Inl p \<Rightarrow> Inl p
            | Inr ok \<Rightarrow>
                if \<not> ok then Inr (Some (MissingPrefix (Name b)))
                else Inr None))"

fun check_loop :: "Binding list \<Rightarrow> panic + error option" where
  "check_loop [] = Inr None"
| "check_loop (b # bs) =
     (case check_binding b of
        Inl p \<Rightarrow> Inl p
      | Inr (Some err) \<Rightarrow> Inr (Some err)
      | Inr None \<Rightarrow> check_loop bs)"

text \<open>
  The body of \<open>check\<close>, without the deferred function: the value handed to \<open>return\<close>
  (\<open>None\<close> is \<open>nil\<close>), or the panic.
\<close>

definition check_body :: "Response \<Rightarrow> Request \<Rightarrow> panic + error option" where
  "check_body resp req =
     (if resp_ID resp \<noteq> req_ID req then Inr (Some IdMismatch)
      else
        (let e = resp_ErrorStatus resp; i = resp_ErrorIndex resp
         in if e \<noteq> 0 then
              (let err = ServerError (errorStatus_String e)
               in if i \<ge> 0 \<and> i < int (length (resp_Bindings resp)) then
                    (case at_int (req_Bindings req) i of
                       Inl p \<Rightarrow> Inl p
                     | Inr b \<Rightarrow> Inr (Some (BindingError b err)))
                  else Inr (Some err))
            else
              (let n = length (resp_Bindings resp)
               in if n = 0 then Inr (Some NoBindings)
                  else if n < length (req_Bindings req) then Inr (Some MissingBindings)
                  else if n > length (req_Bindings req) \<and> req_Type req \<noteq> ''GetBulk''
                    then Inr (Some ExtraneousBindings)
                  else check_loop (resp_Bindings resp))))"

text \<open>
  The deferred function rewrites a non-nil result to \<open>"invalid response: %v"\<close>. When the
  body panics the named result is still nil, so the deferred function changes nothing and
  the panic goes on to the caller.
\<close>

definition check :: "Response \<Rightarrow> Request \<Rightarrow> panic + error option" where
  "check resp req =
     (case check_body resp req of
        Inl p \<Rightarrow> Inl p
      | Inr None \<Rightarrow> Inr None
      | Inr (Some err) \<Rightarrow> Inr (Some (InvalidResponse err)))"

section \<open>toString\<close>

text \<open>
  \<^verbatim>\<open>
  func toString(x []byte) (string, bool) {
      if len(x) == 0 { return "", false }
      if int(x[0]) != len(x[1:]) { return "", false }
      buf := make([]byte, len(x[1:]))
      for i, c := range x[1:] {
          if c < 0x20 || c > 0x7e { return "", false }
          buf[i] = byte(c)
      }
      return string(buf), true
  }
  \<close>
  \<open>toString_loop cs i buf\<close> is the loop over the elements \<open>cs\<close> still to come, the first
  of them at index \<open>i\<close>.
\<close>

fun toString_loop :: "byte list \<Rightarrow> nat \<Rightarrow> byte list \<Rightarrow> panic + (string \<times> bool)" where
  "toString_loop [] i buf = Inr (string_of_bytes buf, True)"
| "toString_loop (c # cs) i buf =
     (if c < 0x20 \<or> c > 0x7e then Inr ([], False)
      else
        (case put buf i c of
           Inl p \<Rightarrow> Inl p
         | Inr buf' \<Rightarrow> toString_loop cs (i + 1) buf'))"

definition toString :: "byte list \<Rightarrow> panic + (string \<times> bool)" where
  "toString x =
     (if length x = 0 then Inr ([], False)
      else
        (case at x 0 of
           Inl p \<Rightarrow> Inl p
         | Inr x0 \<Rightarrow>
             if int (unat x0) \<noteq> int (length (drop 1 x)) then Inr ([], False)
             else toString_loop (drop 1 x) 0 (replicate (length (drop 1 x)) 0)))"

text \<open>A byte in the printable ASCII range, and the length-prefixed form of a string.\<close>

definition printable :: "byte \<Rightarrow> bool" where
  "printable c = (0x20 \<le> c \<and> c \<le> 0x7e)"

definition length_prefixed :: "string \<Rightarrow> byte list" where
  "length_prefixed s = of_nat (length s) # bytes_of_string s"

section \<open>Sample inputs\<close>

text \<open>
  An IpAddress as it arrives: the encoded form is the six bytes at addresses 0 to 5 (tag
  byte \<open>0x40\<close>, length 4, four address bytes), the contents are the last four of them.
\<close>

definition sample_store :: store where
  "sample_store = zero_store(0 := 0x40, 1 := 0x04, 2 := 0x0A, 5 := 0x01)"

definition sample_value :: RawValue where
  "sample_value = \<lparr>Class = 1, Tag = 0, IsCompound = False,
      Bytes = \<lparr>slice_ptr = 2, slice_len = 4\<rparr>, FullBytes = \<lparr>slice_ptr = 0, slice_len = 6\<rparr>\<rparr>"

text \<open>
  A raw value built by hand whose \<open>Bytes\<close> and \<open>FullBytes\<close> are the same slice: three
  bytes at addresses 0 to 2, class 1 and tag 3.
\<close>

definition aliased_store :: store where
  "aliased_store = zero_store(0 := 0x43, 1 := 0x01, 2 := 0x05)"

definition aliased_value :: RawValue where
  "aliased_value = \<lparr>Class = 1, Tag = 3, IsCompound = False,
      Bytes = \<lparr>slice_ptr = 0, slice_len = 3\<rparr>, FullBytes = \<lparr>slice_ptr = 0, slice_len = 3\<rparr>\<rparr>"

definition binding_of :: "int list \<Rightarrow> Binding" where
  "binding_of n = \<lparr>Name = n, Value = null\<rparr>"

text \<open>
  A binding with the given identifier and a value of the given class and tag, a request
  with id 42 of the given type for the given identifiers, and a response with id 42.
\<close>

definition oid_value :: "int list \<Rightarrow> int \<Rightarrow> int \<Rightarrow> Binding" where
  "oid_value n c t = \<lparr>Name = n,
      Value = \<lparr>Class = c, Tag = t, IsCompound = False, Bytes = nil_slice, FullBytes = nil_slice\<rparr>\<rparr>"

definition sample_request :: "string \<Rightarrow> int list list \<Rightarrow> Request" where
  "sample_request t ns = \<lparr>req_ID = 42, req_Type = t, req_Bindings = map binding_of ns,
      req_NonRepeaters = 1, req_MaxRepetitions = 10\<rparr>"

definition sample_response :: "int \<Rightarrow> int \<Rightarrow> Binding list \<Rightarrow> Response" where
  "sample_response e i bs = \<lparr>resp_ID = 42, resp_ErrorStatus = e, resp_ErrorIndex = i,
      resp_Bindings = bs\<rparr>"

section \<open>Properties\<close>

subsection \<open>Facts about slices\<close>

lemma slice_bytes_length: "length (slice_bytes m s) = slice_len s"
  by (simp add: slice_bytes_def)

lemma slice_bytes_nth: "i < slice_len s \<Longrightarrow> slice_bytes m s ! i = m (slice_ptr s + i)"
  by (simp add: slice_bytes_def)

lemma slice_bytes_cong:
  "(\<And>a. a \<in> slice_cells s \<Longrightarrow> m' a = m a) \<Longrightarrow> slice_bytes m' s = slice_bytes m s"
  by (simp add: slice_bytes_def slice_cells_def)

lemma slice_bytes_upd_first:
  assumes "0 < slice_len s"
  shows "slice_bytes (m(slice_ptr s := b)) s = b # tl (slice_bytes m s)"
proof -
  have "[slice_ptr s ..< slice_ptr s + slice_len s]
          = slice_ptr s # [Suc (slice_ptr s) ..< slice_ptr s + slice_len s]"
    using assms by (simp add: upt_conv_Cons)
  then show ?thesis
    by (simp add: slice_bytes_def)
qed

lemma convertClass_cases:
  "convertClass m v =
     (if Class v = 1 \<and> (Tag v = 0 \<or> Tag v = 4) then
        (if 0 < slice_len (FullBytes v)
         then Inr (m(slice_ptr (FullBytes v) := 0x04), v\<lparr>Class := 0, Tag := 4\<rparr>)
         else Inl IndexOutOfRange)
      else if Class v = 1 \<and> (Tag v = 1 \<or> Tag v = 2 \<or> Tag v = 3 \<or> Tag v = 6) then
        (if 0 < slice_len (FullBytes v)
         then Inr (m(slice_ptr (FullBytes v) := 0x02), v\<lparr>Class := 0, Tag := 2\<rparr>)
         else Inl IndexOutOfRange)
      else Inr (m, v))"
  by (simp add: convertClass_def slice_put_def)

lemma sample_bytes:
  "slice_bytes sample_store (FullBytes sample_value) = [0x40, 0x04, 0x0A, 0, 0, 0x01]"
  by (simp add: sample_value_def sample_store_def slice_bytes_def zero_store_def upt_conv_Cons)

subsection \<open>What convertClass rewrites\<close>

text \<open>
  Claim C6, as the code has it. For every raw value \<open>v\<close>: with the application class
  (1), tag 0 or 4 and a non-empty encoded form, the result has class 0 and tag 4 and the
  first byte of the encoded form is \<open>0x04\<close>, the rest of the encoded form as before;
  with class 1, tag 1, 2, 3 or 6 and a non-empty encoded form, the result has class 0 and
  tag 2 and the first byte of the encoded form is \<open>0x02\<close>; every other (class, tag)
  pair leaves both the value and the store as they were.
\<close>

theorem convertClass_rewrite:
  "(Class v = 1 \<and> (Tag v = 0 \<or> Tag v = 4) \<and> 0 < slice_len (FullBytes v) \<longrightarrow>
      convertClass m v = Inr (m(slice_ptr (FullBytes v) := 0x04), v\<lparr>Class := 0, Tag := 4\<rparr>)
      \<and> slice_bytes (m(slice_ptr (FullBytes v) := 0x04)) (FullBytes v)
            = 0x04 # tl (slice_bytes m (FullBytes v)))
   \<and> (Class v = 1 \<and> (Tag v = 1 \<or> Tag v = 2 \<or> Tag v = 3 \<or> Tag v = 6)
        \<and> 0 < slice_len (FullBytes v) \<longrightarrow>
      convertClass m v = Inr (m(slice_ptr (FullBytes v) := 0x02), v\<lparr>Class := 0, Tag := 2\<rparr>)
      \<and> slice_bytes (m(slice_ptr (FullBytes v) := 0x02)) (FullBytes v)
            = 0x02 # tl (slice_bytes m (FullBytes v)))
   \<and> (\<not> (Class v = 1 \<and> Tag v \<in> {0, 1, 2, 3, 4, 6}) \<longrightarrow> convertClass m v = Inr (m, v))"
  by (auto simp add: convertClass_cases slice_bytes_upd_first)

theorem convertClass_rewrite_witness:
  "convertClass sample_store sample_value
     = Inr (sample_store(0 := 0x04), sample_value\<lparr>Class := 0, Tag := 4\<rparr>)
   \<and> slice_bytes (sample_store(0 := 0x04)) (FullBytes sample_value) = [0x04, 0x04, 0x0A, 0, 0, 0x01]
   \<and> convertClass sample_store (sample_value\<lparr>Tag := 6\<rparr>)
     = Inr (sample_store(0 := 0x02), sample_value\<lparr>Class := 0, Tag := 2\<rparr>)
   \<and> convertClass zero_store null = Inr (zero_store, null)"
  using convertClass_rewrite [of sample_value sample_store]
    convertClass_rewrite [of "sample_value\<lparr>Tag := 6\<rparr>" sample_store]
    convertClass_rewrite [of null zero_store]
  by (simp add: sample_bytes) (simp add: sample_value_def null_def)

text \<open>
  Claim C6 as it is written asks for the rewrite on every raw value. With class 1, tag 0
  and an empty encoded form the index expression \<open>v.FullBytes[0]\<close> panics, and there is
  no result.
\<close>

theorem convertClass_empty_counterexample:
  "convertClass zero_store
     \<lparr>Class = 1, Tag = 0, IsCompound = False, Bytes = nil_slice, FullBytes = nil_slice\<rparr>
   = Inl IndexOutOfRange"
  by (simp add: convertClass_def slice_put_def nil_slice_def)

text \<open>
  Claim C7. Converting a converted value changes nothing: a second call returns the store
  and the value of the first, and two calls in a row behave as one.
\<close>

theorem convertClass_idempotent:
  "and_then (convertClass m v) (\<lambda>(m', v'). convertClass m' v') = convertClass m v
   \<and> (\<forall>m' v'. convertClass m v = Inr (m', v') \<longrightarrow> convertClass m' v' = Inr (m', v'))"
  by (auto simp add: and_then_def convertClass_cases split: if_splits)

theorem convertClass_idempotent_witness:
  "convertClass sample_store sample_value
     = Inr (sample_store(0 := 0x04), sample_value\<lparr>Class := 0, Tag := 4\<rparr>)
   \<and> convertClass (sample_store(0 := 0x04)) (sample_value\<lparr>Class := 0, Tag := 4\<rparr>)
     = Inr (sample_store(0 := 0x04), sample_value\<lparr>Class := 0, Tag := 4\<rparr>)"
proof -
  have first: "convertClass sample_store sample_value
     = Inr (sample_store(0 := 0x04), sample_value\<lparr>Class := 0, Tag := 4\<rparr>)"
    by (simp add: convertClass_def slice_put_def sample_value_def)
  with convertClass_idempotent [of sample_store sample_value] show ?thesis
    by blast
qed

text \<open>
  Claim C10, as the code has it. On a non-empty encoded form \<open>convertClass\<close> returns,
  and it leaves every byte of the store other than the first byte of the encoded form, and
  every field other than \<open>Class\<close> and \<open>Tag\<close>, as they were. So the encoded bytes
  after the first are unchanged, and so are the contents bytes when the slice \<open>Bytes\<close>
  does not hold that first byte (as in a decoded value, where the contents follow the
  header). With any class and tag other than class 1 with tag 0, 1, 2, 3, 4 or 6 the call
  returns its input whatever the encoded form is, the empty one included.
\<close>

theorem convertClass_frame:
  "(0 < slice_len (FullBytes v) \<longrightarrow>
      (\<exists>m' v'. convertClass m v = Inr (m', v')
         \<and> (\<forall>a. a \<noteq> slice_ptr (FullBytes v) \<longrightarrow> m' a = m a)
         \<and> IsCompound v' = IsCompound v \<and> Bytes v' = Bytes v \<and> FullBytes v' = FullBytes v
         \<and> tl (slice_bytes m' (FullBytes v')) = tl (slice_bytes m (FullBytes v))
         \<and> (slice_ptr (FullBytes v) \<notin> slice_cells (Bytes v) \<longrightarrow>
              slice_bytes m' (Bytes v') = slice_bytes m (Bytes v))))
   \<and> (\<not> (Class v = 1 \<and> Tag v \<in> {0, 1, 2, 3, 4, 6}) \<longrightarrow> convertClass m v = Inr (m, v))"
proof (intro conjI impI)
  assume ne: "0 < slice_len (FullBytes v)"
  let ?p = "slice_ptr (FullBytes v)"
  have tl_upd: "tl (slice_bytes (m(?p := b)) (FullBytes v)) = tl (slice_bytes m (FullBytes v))" for b
    using ne by (simp add: slice_bytes_upd_first)
  have sep: "?p \<notin> slice_cells (Bytes v) \<Longrightarrow>
      slice_bytes (m(?p := b)) (Bytes v) = slice_bytes m (Bytes v)" for b
    by (rule slice_bytes_cong) auto
  show "\<exists>m' v'. convertClass m v = Inr (m', v')
         \<and> (\<forall>a. a \<noteq> ?p \<longrightarrow> m' a = m a)
         \<and> IsCompound v' = IsCompound v \<and> Bytes v' = Bytes v \<and> FullBytes v' = FullBytes v
         \<and> tl (slice_bytes m' (FullBytes v')) = tl (slice_bytes m (FullBytes v))
         \<and> (?p \<notin> slice_cells (Bytes v) \<longrightarrow> slice_bytes m' (Bytes v') = slice_bytes m (Bytes v))"
    using ne tl_upd sep by (simp add: convertClass_cases)
next
  assume "\<not> (Class v = 1 \<and> Tag v \<in> {0, 1, 2, 3, 4, 6})"
  then show "convertClass m v = Inr (m, v)"
    by (auto simp add: convertClass_cases)
qed

theorem convertClass_frame_witness:
  "0 < slice_len (FullBytes sample_value)
   \<and> slice_ptr (FullBytes sample_value) \<notin> slice_cells (Bytes sample_value)
   \<and> convertClass sample_store sample_value
        = Inr (sample_store(0 := 0x04), sample_value\<lparr>Class := 0, Tag := 4\<rparr>)
   \<and> slice_bytes (sample_store(0 := 0x04)) (Bytes sample_value)
        = slice_bytes sample_store (Bytes sample_value)
   \<and> tl (slice_bytes (sample_store(0 := 0x04)) (FullBytes sample_value))
        = tl (slice_bytes sample_store (FullBytes sample_value))
   \<and> \<not> (Class null = 1 \<and> Tag null \<in> {0, 1, 2, 3, 4, 6})
   \<and> slice_len (FullBytes null) = 0
   \<and> convertClass zero_store null = Inr (zero_store, null)"
proof -
  have ne: "0 < slice_len (FullBytes sample_value)"
    and sep: "slice_ptr (FullBytes sample_value) \<notin> slice_cells (Bytes sample_value)"
    by (simp_all add: sample_value_def slice_cells_def)
  have other: "\<not> (Class null = 1 \<and> Tag null \<in> {0, 1, 2, 3, 4, 6})"
    and empty: "slice_len (FullBytes null) = 0"
    by (simp_all add: null_def nil_slice_def)
  have run: "convertClass sample_store sample_value
        = Inr (sample_store(0 := 0x04), sample_value\<lparr>Class := 0, Tag := 4\<rparr>)"
    by (simp add: convertClass_def slice_put_def sample_value_def)
  from convertClass_frame [of sample_value sample_store] ne sep run
  have "slice_bytes (sample_store(0 := 0x04)) (Bytes sample_value)
          = slice_bytes sample_store (Bytes sample_value)
        \<and> tl (slice_bytes (sample_store(0 := 0x04)) (FullBytes sample_value))
          = tl (slice_bytes sample_store (FullBytes sample_value))"
    by auto
  moreover from convertClass_frame [of null zero_store] other
  have "convertClass zero_store null = Inr (zero_store, null)"
    by blast
  ultimately show ?thesis
    using ne sep other empty run by blast
qed

text \<open>
  Claim C10 as it is written leaves the contents bytes unchanged for every raw value with
  a non-empty encoded form. When \<open>Bytes\<close> and \<open>FullBytes\<close> are the same window on the
  store, the write to \<open>v.FullBytes[0]\<close> is a write to \<open>v.Bytes[0]\<close>: the contents
  \<open>0x43, 0x01, 0x05\<close> become \<open>0x02, 0x01, 0x05\<close>.
\<close>

theorem convertClass_aliased_counterexample:
  "0 < slice_len (FullBytes aliased_value)
   \<and> convertClass aliased_store aliased_value
        = Inr (aliased_store(0 := 0x02), aliased_value\<lparr>Class := 0, Tag := 2\<rparr>)
   \<and> slice_bytes aliased_store (Bytes aliased_value) = [0x43, 0x01, 0x05]
   \<and> slice_bytes (aliased_store(0 := 0x02)) (Bytes (aliased_value\<lparr>Class := 0, Tag := 2\<rparr>))
        = [0x02, 0x01, 0x05]"
  by (simp add: convertClass_def slice_put_def aliased_value_def aliased_store_def
      slice_bytes_def zero_store_def upt_conv_Cons)


subsection \<open>The order of bindings\<close>

declare less_loop.simps [simp del]

lemma at_in_range: "i < length xs \<Longrightarrow> at xs i = Inr (xs ! i)"
  by (simp add: at_def)

lemma less_loop_swap:
  "n \<le> length a \<Longrightarrow> n \<le> length b \<Longrightarrow>
     \<exists>r. less_loop a b i n = Inr r \<and> less_loop b a i n = Inr (map_option Not r)"
proof (induction a b i n rule: less_loop.induct)
  case (1 a b i n)
  show ?case
  proof (cases "i < n")
    case False
    then show ?thesis
      by (simp add: less_loop.simps [of a b i n] less_loop.simps [of b a i n])
  next
    case True
    with "1.prems" have ia: "at a i = Inr (a ! i)" and ib: "at b i = Inr (b ! i)"
      by (simp_all add: at_in_range)
    consider (lt) "a ! i < b ! i" | (eq) "a ! i = b ! i" | (gt) "a ! i > b ! i"
      by linarith
    then show ?thesis
    proof cases
      case lt
      with True ia ib show ?thesis
        by (simp add: less_loop.simps [of a b i n] less_loop.simps [of b a i n])
    next
      case gt
      with True ia ib show ?thesis
        by (simp add: less_loop.simps [of a b i n] less_loop.simps [of b a i n])
    next
      case eq
      with True ia ib "1.IH" [of "a ! i" "b ! i"] "1.prems" show ?thesis
        by (simp add: less_loop.simps [of a b i n] less_loop.simps [of b a i n])
    qed
  qed
qed

lemma less_loop_equal:
  "n \<le> length a \<Longrightarrow> n \<le> length b \<Longrightarrow> (\<And>j. i \<le> j \<Longrightarrow> j < n \<Longrightarrow> a ! j = b ! j) \<Longrightarrow>
     less_loop a b i n = Inr None"
proof (induction a b i n rule: less_loop.induct)
  case (1 a b i n)
  show ?case
  proof (cases "i < n")
    case False
    then show ?thesis
      by (simp add: less_loop.simps [of a b i n])
  next
    case True
    with "1.prems" have ia: "at a i = Inr (a ! i)" and ib: "at b i = Inr (b ! i)"
      and eq: "a ! i = b ! i"
      by (simp_all add: at_in_range)
    have "less_loop a b (i + 1) n = Inr None"
      using True ia ib eq "1.prems" by (intro "1.IH" [of "a ! i" "b ! i"]) simp_all
    with True ia ib eq show ?thesis
      by (simp add: less_loop.simps [of a b i n])
  qed
qed

text \<open>
  \<open>less\<close> returns for all bindings: every index it reads is in range and the final
  \<open>panic("unreached")\<close> is not reached.
\<close>

theorem less_never_panics: "\<exists>r. less a b = Inr r"
proof -
  let ?k = "min (length (Name a)) (length (Name b))"
  obtain r where "less_loop (Name a) (Name b) 0 ?k = Inr r"
    using less_loop_swap [of ?k "Name a" "Name b" 0] by auto
  then show ?thesis
    by (cases r) (auto simp add: less_def min_def split: if_splits)
qed

lemma less_not_both: "\<not> (less a b = Inr True \<and> less b a = Inr True)"
proof -
  let ?k = "min (length (Name a)) (length (Name b))"
  obtain r where r: "less_loop (Name a) (Name b) 0 ?k = Inr r"
      "less_loop (Name b) (Name a) 0 ?k = Inr (map_option Not r)"
    using less_loop_swap [of ?k "Name a" "Name b" 0] by auto
  consider (lt) "length (Name a) < length (Name b)" | (eq) "length (Name a) = length (Name b)"
    | (gt) "length (Name a) > length (Name b)"
    by linarith
  then show ?thesis
  proof cases
    case lt
    with r show ?thesis by (cases r) (auto simp add: less_def min_def)
  next
    case eq
    with r show ?thesis by (cases r) (auto simp add: less_def min_def)
  next
    case gt
    with r show ?thesis by (cases r) (auto simp add: less_def min_def)
  qed
qed

text \<open>
  Claim C3. \<open>less a b\<close> and \<open>less b a\<close> are never both true; when the identifier of
  \<open>a\<close> is shorter than that of \<open>b\<close> and agrees with it component by component,
  \<open>less a b\<close> is true and \<open>less b a\<close> is false; bindings with the same identifier
  are not less than each other either way.
\<close>

theorem less_antisymmetric_prefix:
  "\<not> (less a b = Inr True \<and> less b a = Inr True)
   \<and> (length (Name a) < length (Name b) \<and> (\<forall>i < length (Name a). Name a ! i = Name b ! i) \<longrightarrow>
        less a b = Inr True \<and> less b a = Inr False)
   \<and> (Name a = Name b \<longrightarrow> less a b = Inr False \<and> less b a = Inr False)"
proof (intro conjI impI)
  show "\<not> (less a b = Inr True \<and> less b a = Inr True)"
    by (rule less_not_both)
next
  assume pre: "length (Name a) < length (Name b) \<and> (\<forall>i < length (Name a). Name a ! i = Name b ! i)"
  then have ab: "less_loop (Name a) (Name b) 0 (length (Name a)) = Inr None"
    by (intro less_loop_equal) simp_all
  from pre have ba: "less_loop (Name b) (Name a) 0 (length (Name a)) = Inr None"
    by (intro less_loop_equal) simp_all
  from pre ab show "less a b = Inr True"
    by (simp add: less_def)
  from pre ba show "less b a = Inr False"
    by (simp add: less_def)
next
  assume same: "Name a = Name b"
  have "less_loop (Name b) (Name b) 0 (length (Name b)) = Inr None"
    by (intro less_loop_equal) simp_all
  with same show "less a b = Inr False" and "less b a = Inr False"
    by (simp_all add: less_def)
qed

theorem less_antisymmetric_prefix_witness:
  "length (Name (binding_of [1, 3, 6])) < length (Name (binding_of [1, 3, 6, 1]))
   \<and> less (binding_of [1, 3, 6]) (binding_of [1, 3, 6, 1]) = Inr True
   \<and> less (binding_of [1, 3, 6, 1]) (binding_of [1, 3, 6]) = Inr False
   \<and> less (binding_of [1, 3, 6]) (binding_of [1, 3, 6]) = Inr False"
proof -
  have len: "length (Name (binding_of [1, 3, 6])) < length (Name (binding_of [1, 3, 6, 1]))"
    by (simp add: binding_of_def)
  have pre: "\<forall>i < length (Name (binding_of [1, 3, 6])).
         Name (binding_of [1, 3, 6]) ! i = Name (binding_of [1, 3, 6, 1]) ! i"
    by (simp add: binding_of_def nth_Cons' less_Suc_eq numeral_3_eq_3)
  from less_antisymmetric_prefix [of "binding_of [1, 3, 6]" "binding_of [1, 3, 6, 1]"]
    less_antisymmetric_prefix [of "binding_of [1, 3, 6]" "binding_of [1, 3, 6]"] len pre
  show ?thesis
    by blast
qed

text \<open>
  \<open>less\<close> is the lexicographic order of the identifiers, a proper prefix coming before
  its extensions.
\<close>

lemma less_loop_lexord:
  "n = min (length a) (length b) \<Longrightarrow> i \<le> n \<Longrightarrow>
     \<exists>r. less_loop a b i n = Inr r
       \<and> (case r of Some x \<Rightarrow> x | None \<Rightarrow> length a < length b)
           = ((drop i a, drop i b) \<in> lexord {(x, y). x < y})"
proof (induction a b i n rule: less_loop.induct)
  case (1 a b i n)
  show ?case
  proof (cases "i < n")
    case False
    with "1.prems" have i: "i = min (length a) (length b)"
      by linarith
    have run: "less_loop a b i n = Inr None"
      using False by (simp add: less_loop.simps [of a b i n])
    have "(length a < length b) = ((drop i a, drop i b) \<in> lexord {(x, y). x < y})"
    proof (cases "length a \<le> length b")
      case True
      with i have e: "drop i a = []" by simp
      from True i have "(drop i b \<noteq> []) = (length a < length b)" by auto
      then have "(length a < length b) = (\<exists>y ys. drop i b = y # ys)"
        by (simp only: neq_Nil_conv)
      then show ?thesis
        by (simp only: e lexord_Nil_left)
    next
      case False
      with i have "drop i b = []" by simp
      with False show ?thesis by simp
    qed
    with run show ?thesis
      by simp
  next
    case True
    with "1.prems" have la: "i < length a" and lb: "i < length b"
      by simp_all
    then have ia: "at a i = Inr (a ! i)" and ib: "at b i = Inr (b ! i)"
      by (simp_all add: at_in_range)
    from la lb have da: "drop i a = a ! i # drop (i + 1) a" and db: "drop i b = b ! i # drop (i + 1) b"
      by (simp_all add: Cons_nth_drop_Suc)
    consider (lt) "a ! i < b ! i" | (eq) "a ! i = b ! i" | (gt) "a ! i > b ! i"
      by linarith
    then show ?thesis
    proof cases
      case lt
      with True ia ib have "less_loop a b i n = Inr (Some True)"
        by (simp add: less_loop.simps [of a b i n])
      with lt da db show ?thesis
        by simp
    next
      case gt
      with True ia ib have "less_loop a b i n = Inr (Some False)"
        by (simp add: less_loop.simps [of a b i n])
      with gt da db show ?thesis
        by simp
    next
      case eq
      with True ia ib have step: "less_loop a b i n = less_loop a b (i + 1) n"
        by (simp add: less_loop.simps [of a b i n])
      have "\<exists>r. less_loop a b (i + 1) n = Inr r
          \<and> (case r of Some x \<Rightarrow> x | None \<Rightarrow> length a < length b)
              = ((drop (i + 1) a, drop (i + 1) b) \<in> lexord {(x, y). x < y})"
        using True ia ib eq "1.prems" by (intro "1.IH" [of "a ! i" "b ! i"]) simp_all
      with step eq da db show ?thesis
        by simp
    qed
  qed
qed

lemma less_lexord: "less a b = Inr ((Name a, Name b) \<in> lexord {(x, y). x < y})"
proof -
  let ?n = "min (length (Name a)) (length (Name b))"
  obtain r where r: "less_loop (Name a) (Name b) 0 ?n = Inr r"
    and v: "(case r of Some x \<Rightarrow> x | None \<Rightarrow> length (Name a) < length (Name b))
           = ((Name a, Name b) \<in> lexord {(x, y). x < y})"
    using less_loop_lexord [of ?n "Name a" "Name b" 0] by auto
  consider (lt) "length (Name a) < length (Name b)" | (eq) "length (Name a) = length (Name b)"
    | (gt) "length (Name a) > length (Name b)"
    by linarith
  then have "less a b = Inr (case r of Some x \<Rightarrow> x | None \<Rightarrow> length (Name a) < length (Name b))"
  proof cases
    case lt
    with r show ?thesis by (cases r) (simp_all add: less_def min_def)
  next
    case eq
    with r show ?thesis by (cases r) (simp_all add: less_def min_def)
  next
    case gt
    with r show ?thesis by (cases r) (simp_all add: less_def min_def)
  qed
  with v show ?thesis
    by simp
qed

text \<open>
  So \<open>less\<close> is a strict total order on identifiers: no binding is less than itself,
  \<open>less\<close> is transitive, and of two bindings with different identifiers one is less
  than the other.
\<close>

theorem less_strict_total_order:
  "less a a = Inr False
   \<and> (less a b = Inr True \<and> less b c = Inr True \<longrightarrow> less a c = Inr True)
   \<and> (Name a \<noteq> Name b \<longrightarrow> less a b = Inr True \<or> less b a = Inr True)"
proof (intro conjI impI)
  show "less a a = Inr False"
    by (simp add: less_lexord lexord_irreflexive)
next
  assume "less a b = Inr True \<and> less b c = Inr True"
  then have "(Name a, Name b) \<in> lexord {(x, y). x < y}"
    and "(Name b, Name c) \<in> lexord {(x :: int, y). x < y}"
    by (simp_all add: less_lexord)
  moreover have "trans {(x :: int, y). x < y}"
    by (auto simp add: trans_def)
  ultimately have "(Name a, Name c) \<in> lexord {(x, y). x < y}"
    by (rule lexord_trans)
  then show "less a c = Inr True"
    by (simp add: less_lexord)
next
  assume "Name a \<noteq> Name b"
  moreover have "\<forall>x y :: int. (x, y) \<in> {(x, y). x < y} \<or> x = y \<or> (y, x) \<in> {(x, y). x < y}"
    by auto
  then have "(Name a, Name b) \<in> lexord {(x, y). x < y} \<or> Name a = Name b
      \<or> (Name b, Name a) \<in> lexord {(x, y). x < y}"
    by (rule lexord_linear)
  ultimately show "less a b = Inr True \<or> less b a = Inr True"
    by (simp add: less_lexord)
qed

theorem less_strict_total_order_witness:
  "less (binding_of [1, 3, 6]) (binding_of [1, 3, 6, 1]) = Inr True
   \<and> less (binding_of [1, 3, 6, 1]) (binding_of [1, 3, 7]) = Inr True
   \<and> less (binding_of [1, 3, 6]) (binding_of [1, 3, 7]) = Inr True"
proof -
  have ab: "less (binding_of [1, 3, 6]) (binding_of [1, 3, 6, 1]) = Inr True"
    by code_simp
  have bc: "less (binding_of [1, 3, 6, 1]) (binding_of [1, 3, 7]) = Inr True"
    by code_simp
  from less_strict_total_order [of "binding_of [1, 3, 6]" "binding_of [1, 3, 6, 1]" "binding_of [1, 3, 7]"]
    ab bc show ?thesis
    by blast
qed


subsection \<open>toString\<close>

lemma put_in_range: "i < length xs \<Longrightarrow> put xs i v = Inr (xs[i := v])"
  by (simp add: put_def)

lemma toString_loop_run:
  "toString_loop cs (length pre) (pre @ replicate (length cs) 0)
       = Inr (if \<forall>c \<in> set cs. printable c then (string_of_bytes (pre @ cs), True)
              else ([], False))"
proof (induction cs arbitrary: pre)
  case Nil
  then show ?case by simp
next
  case (Cons c cs)
  show ?case
  proof (cases "printable c")
    case False
    then show ?thesis
      by (auto simp add: printable_def)
  next
    case True
    have "put (pre @ replicate (length (c # cs)) 0) (length pre) c
        = Inr ((pre @ [c]) @ replicate (length cs) 0)"
      by (simp add: put_in_range)
    moreover have "toString_loop cs (length (pre @ [c])) ((pre @ [c]) @ replicate (length cs) 0)
        = Inr (if \<forall>c \<in> set cs. printable c then (string_of_bytes ((pre @ [c]) @ cs), True)
               else ([], False))"
      by (rule Cons.IH)
    ultimately show ?thesis
      using True by (simp add: printable_def not_less)
  qed
qed

lemma toString_eq:
  "toString x =
     Inr (if x \<noteq> [] \<and> unat (hd x) = length (tl x) \<and> (\<forall>c \<in> set (tl x). printable c)
          then (string_of_bytes (tl x), True) else ([], False))"
proof (cases x)
  case Nil
  then show ?thesis by (simp add: toString_def)
next
  case (Cons x0 rest)
  have "toString_loop rest (length ([] :: byte list)) ([] @ replicate (length rest) 0)
      = Inr (if \<forall>c \<in> set rest. printable c then (string_of_bytes ([] @ rest), True)
             else ([], False))"
    by (rule toString_loop_run)
  with Cons show ?thesis
    unfolding toString_def of_nat_eq_iff by (simp add: at_def)
qed

lemma unat_of_char: "unat (of_char c :: byte) = of_char c"
proof -
  have "(of_char c :: byte) = of_nat (of_char c)"
    by (simp add: of_nat_of_char)
  moreover have "(of_char c :: nat) < 256"
    by simp
  ultimately show ?thesis
    by (simp add: unat_of_nat)
qed

lemma string_of_bytes_of_string: "string_of_bytes (bytes_of_string t) = t"
  by (simp add: string_of_bytes_def bytes_of_string_def unat_of_char map_idI)

text \<open>
  Claim C5. \<open>toString x\<close> returns the bytes after the first as a string exactly when
  \<open>x\<close> is not empty, its first byte is the number of the bytes after it, and each of
  those lies in \<open>0x20..0x7e\<close>; in every other case it returns the empty string and
  \<open>false\<close>. So a string of at most 255 printable characters comes back from its
  length-prefixed form, and an input with a byte below \<open>0x20\<close> or above \<open>0x7e\<close>
  after the first gives no result.
\<close>

theorem toString_spec:
  "(toString x = Inr (s, True) \<longleftrightarrow>
      x \<noteq> [] \<and> unat (hd x) = length (tl x) \<and> (\<forall>c \<in> set (tl x). 0x20 \<le> c \<and> c \<le> 0x7e)
      \<and> s = string_of_bytes (tl x))
   \<and> (\<not> (x \<noteq> [] \<and> unat (hd x) = length (tl x) \<and> (\<forall>c \<in> set (tl x). 0x20 \<le> c \<and> c \<le> 0x7e)) \<longrightarrow>
        toString x = Inr ([], False))
   \<and> (length t \<le> 255 \<and> (\<forall>c \<in> set t. 0x20 \<le> (of_char c :: byte) \<and> (of_char c :: byte) \<le> 0x7e) \<longrightarrow>
        toString (length_prefixed t) = Inr (t, True))
   \<and> ((\<exists>c \<in> set (tl x). c < 0x20 \<or> c > 0x7e) \<longrightarrow> toString x = Inr ([], False))"
proof (intro conjI impI)
  show "toString x = Inr (s, True) \<longleftrightarrow>
      x \<noteq> [] \<and> unat (hd x) = length (tl x) \<and> (\<forall>c \<in> set (tl x). 0x20 \<le> c \<and> c \<le> 0x7e)
      \<and> s = string_of_bytes (tl x)"
    by (auto simp add: toString_eq printable_def)
next
  assume "\<not> (x \<noteq> [] \<and> unat (hd x) = length (tl x) \<and> (\<forall>c \<in> set (tl x). 0x20 \<le> c \<and> c \<le> 0x7e))"
  then show "toString x = Inr ([], False)"
    by (auto simp add: toString_eq printable_def)
next
  assume t: "length t \<le> 255 \<and> (\<forall>c \<in> set t. 0x20 \<le> (of_char c :: byte) \<and> (of_char c :: byte) \<le> 0x7e)"
  then have "unat (of_nat (length t) :: byte) = length t"
    by (simp add: unat_of_nat)
  moreover from t have "\<forall>c \<in> set (bytes_of_string t). printable c"
    by (auto simp add: bytes_of_string_def printable_def)
  ultimately show "toString (length_prefixed t) = Inr (t, True)"
    by (simp add: toString_eq length_prefixed_def string_of_bytes_of_string)
       (simp add: bytes_of_string_def)
next
  assume "\<exists>c \<in> set (tl x). c < 0x20 \<or> c > 0x7e"
  then obtain c where c: "c \<in> set (tl x)" "c < 0x20 \<or> c > 0x7e"
    by blast
  from c(2) have "\<not> printable c"
    by (auto simp add: printable_def)
  with c(1) have "\<not> (\<forall>c \<in> set (tl x). printable c)"
    by blast
  then show "toString x = Inr ([], False)"
    by (simp add: toString_eq)
qed

theorem toString_spec_witness:
  "toString [4, 0x74, 0x65, 0x73, 0x74] = Inr (''test'', True)
   \<and> toString (length_prefixed ''test'') = Inr (''test'', True)
   \<and> toString [2, 0x74, 0x0A] = Inr ([], False)
   \<and> toString [] = Inr ([], False)"
proof -
  have b: "string_of_bytes [0x74, 0x65, 0x73, 0x74] = ''test''"
    by code_simp
  have p: "\<forall>c \<in> set [0x74, 0x65, 0x73, 0x74 :: byte]. 0x20 \<le> c \<and> c \<le> 0x7e"
    by simp
  have q: "length ''test'' \<le> 255
      \<and> (\<forall>c \<in> set ''test''. 0x20 \<le> (of_char c :: byte) \<and> (of_char c :: byte) \<le> 0x7e)"
    by simp
  have r: "\<exists>c \<in> set (tl [2, 0x74, 0x0A :: byte]). c < 0x20 \<or> c > 0x7e"
    by simp
  from toString_spec [of "[4, 0x74, 0x65, 0x73, 0x74]" "''test''" "[]"] b p
  have "toString [4, 0x74, 0x65, 0x73, 0x74] = Inr (''test'', True)"
    by simp
  moreover from toString_spec [of "[]" "[]" "''test''"] q
  have "toString (length_prefixed ''test'') = Inr (''test'', True)"
    by blast
  moreover from toString_spec [of "[2, 0x74, 0x0A]" "[]" "[]"] r
  have "toString [2, 0x74, 0x0A] = Inr ([], False)"
    by blast
  moreover from toString_spec [of "[]" "[]" "[]"]
  have "toString [] = Inr ([], False)"
    by simp
  ultimately show ?thesis
    by blast
qed

subsection \<open>Error status text\<close>

lemma errorText_outside: "e < 0 \<or> 18 < e \<Longrightarrow> errorText_lookup e = []"
  by (auto simp add: errorText_lookup_def errorText_def)

text \<open>
  Claim C9. The text of each code from 0 to 18 is the entry of the table; the text of any
  other code is \<open>code\<close>, a space and the code in decimal; the text is never empty.
\<close>

theorem errorStatus_String_table:
  "errorStatus_String 0 = ''no error''
   \<and> errorStatus_String 1 = ''too big''
   \<and> errorStatus_String 2 = ''no such name''
   \<and> errorStatus_String 3 = ''bad value''
   \<and> errorStatus_String 4 = ''read only''
   \<and> errorStatus_String 5 = ''gen err''
   \<and> errorStatus_String 6 = ''no access''
   \<and> errorStatus_String 7 = ''wrong type''
   \<and> errorStatus_String 8 = ''wrong length''
   \<and> errorStatus_String 9 = ''wrong encoding''
   \<and> errorStatus_String 10 = ''wrong value''
   \<and> errorStatus_String 11 = ''no creation''
   \<and> errorStatus_String 12 = ''inconsistent value''
   \<and> errorStatus_String 13 = ''resource unavailable''
   \<and> errorStatus_String 14 = ''commit failed''
   \<and> errorStatus_String 15 = ''undo failed''
   \<and> errorStatus_String 16 = ''authorization error''
   \<and> errorStatus_String 17 = ''not writable''
   \<and> errorStatus_String 18 = ''inconsistent name''
   \<and> (e < 0 \<or> 18 < e \<longrightarrow> errorStatus_String e = ''code '' @ format_d e)
   \<and> errorStatus_String e \<noteq> []"
proof -
  have table: "errorStatus_String 0 = ''no error''"
    "errorStatus_String 1 = ''too big''"
    "errorStatus_String 2 = ''no such name''"
    "errorStatus_String 3 = ''bad value''"
    "errorStatus_String 4 = ''read only''"
    "errorStatus_String 5 = ''gen err''"
    "errorStatus_String 6 = ''no access''"
    "errorStatus_String 7 = ''wrong type''"
    "errorStatus_String 8 = ''wrong length''"
    "errorStatus_String 9 = ''wrong encoding''"
    "errorStatus_String 10 = ''wrong value''"
    "errorStatus_String 11 = ''no creation''"
    "errorStatus_String 12 = ''inconsistent value''"
    "errorStatus_String 13 = ''resource unavailable''"
    "errorStatus_String 14 = ''commit failed''"
    "errorStatus_String 15 = ''undo failed''"
    "errorStatus_String 16 = ''authorization error''"
    "errorStatus_String 17 = ''not writable''"
    "errorStatus_String 18 = ''inconsistent name''"
    by (simp_all add: errorStatus_String_def errorText_lookup_def errorText_def)
  have outside: "e < 0 \<or> 18 < e \<longrightarrow> errorStatus_String e = ''code '' @ format_d e"
    by (simp add: errorStatus_String_def errorText_outside)
  have "errorStatus_String e \<noteq> []"
    by (simp add: errorStatus_String_def Let_def)
  with table outside show ?thesis
    by blast
qed

theorem errorStatus_String_table_witness:
  "errorStatus_String 19 = ''code 19'' \<and> errorStatus_String (- 1) = ''code -1''
   \<and> errorStatus_String 2 = ''no such name''"
proof -
  have "format_d 19 = ''19''" and "format_d (- 1) = ''-1''"
    by code_simp+
  with errorStatus_String_table [of 19] errorStatus_String_table [of "- 1"] show ?thesis
    by simp
qed

subsection \<open>check\<close>

declare hasPrefix_loop.simps [simp del]

lemma hasPrefix_loop_eq:
  "length p \<le> length inst \<Longrightarrow>
     hasPrefix_loop inst p i = Inr (\<forall>j. i \<le> j \<and> j < length p \<longrightarrow> inst ! j = p ! j)"
proof (induction inst p i rule: hasPrefix_loop.induct)
  case (1 inst p i)
  show ?case
  proof (cases "i < length p")
    case False
    then have "hasPrefix_loop inst p i = Inr True"
      by (simp add: hasPrefix_loop.simps [of inst p i])
    moreover from False have "\<forall>j. i \<le> j \<and> j < length p \<longrightarrow> inst ! j = p ! j"
      by simp
    ultimately show ?thesis
      by simp
  next
    case True
    with "1.prems" have ia: "at inst i = Inr (inst ! i)" and ib: "at p i = Inr (p ! i)"
      by (simp_all add: at_in_range)
    show ?thesis
    proof (cases "inst ! i = p ! i")
      case False
      with True ia ib have "hasPrefix_loop inst p i = Inr False"
        by (simp add: hasPrefix_loop.simps [of inst p i])
      moreover from False True have "\<not> (\<forall>j. i \<le> j \<and> j < length p \<longrightarrow> inst ! j = p ! j)"
        by blast
      ultimately show ?thesis
        by simp
    next
      case same: True
      have step: "hasPrefix_loop inst p i = hasPrefix_loop inst p (i + 1)"
        using True ia ib same by (simp add: hasPrefix_loop.simps [of inst p i])
      have "hasPrefix_loop inst p (i + 1)
          = Inr (\<forall>j. i + 1 \<le> j \<and> j < length p \<longrightarrow> inst ! j = p ! j)"
        using True ia ib same "1.prems" by (intro "1.IH" [of "inst ! i" "p ! i"]) simp_all
      moreover have "(\<forall>j. i + 1 \<le> j \<and> j < length p \<longrightarrow> inst ! j = p ! j)
          \<longleftrightarrow> (\<forall>j. i \<le> j \<and> j < length p \<longrightarrow> inst ! j = p ! j)"
      proof
        assume later: "\<forall>j. i + 1 \<le> j \<and> j < length p \<longrightarrow> inst ! j = p ! j"
        show "\<forall>j. i \<le> j \<and> j < length p \<longrightarrow> inst ! j = p ! j"
        proof (intro allI impI)
          fix j
          assume j: "i \<le> j \<and> j < length p"
          show "inst ! j = p ! j"
          proof (cases "j = i")
            case True
            with same show ?thesis by simp
          next
            case False
            with j have "i + 1 \<le> j \<and> j < length p" by simp
            with later show ?thesis by blast
          qed
        qed
      next
        assume "\<forall>j. i \<le> j \<and> j < length p \<longrightarrow> inst ! j = p ! j"
        then show "\<forall>j. i + 1 \<le> j \<and> j < length p \<longrightarrow> inst ! j = p ! j"
          by simp
      qed
      ultimately show ?thesis
        using step by simp
    qed
  qed
qed

lemma hasPrefix_eq: "hasPrefix inst p = Inr (take (length p) inst = p)"
proof (cases "length inst < length p")
  case True
  then have "length (take (length p) inst) \<noteq> length p"
    by simp
  then have "take (length p) inst \<noteq> p"
    by (rule contrapos_nn) simp
  with True show ?thesis
    by (simp add: hasPrefix_def)
next
  case False
  then have le: "length p \<le> length inst"
    by simp
  have "(\<forall>j. 0 \<le> j \<and> j < length p \<longrightarrow> inst ! j = p ! j) \<longleftrightarrow> take (length p) inst = p"
  proof
    assume "\<forall>j. 0 \<le> j \<and> j < length p \<longrightarrow> inst ! j = p ! j"
    with le show "take (length p) inst = p"
      by (intro nth_equalityI) simp_all
  next
    assume eq: "take (length p) inst = p"
    show "\<forall>j. 0 \<le> j \<and> j < length p \<longrightarrow> inst ! j = p ! j"
    proof (intro allI impI)
      fix j
      assume "0 \<le> j \<and> j < length p"
      then have "take (length p) inst ! j = inst ! j"
        by simp
      with eq show "inst ! j = p ! j"
        by simp
    qed
  qed
  with False le show ?thesis
    by (simp add: hasPrefix_def hasPrefix_loop_eq)
qed

lemma hasPrefix_1_3: "hasPrefix n [1, 3] = Inr (take 2 n = [1, 3])"
  using hasPrefix_eq [of n "[1, 3]"] by (simp add: numeral_2_eq_2)

lemma check_binding_eq:
  "check_binding b =
     Inr (if Class (Value b) = 2 \<and> Tag (Value b) = 0 then Some (NoSuchObjectError (Name b))
          else if Class (Value b) = 2 \<and> Tag (Value b) = 1 then Some (NoSuchInstanceError (Name b))
          else if Class (Value b) = 2 \<and> Tag (Value b) = 2 then Some (EndOfMibViewError (Name b))
          else if Class (Value b) = 0 \<and> Tag (Value b) = 5 then Some (UnexpectedNull (Name b))
          else if take 2 (Name b) \<noteq> [1, 3] then Some (MissingPrefix (Name b))
          else None)"
  by (simp add: check_binding_def Let_def check_eq_def noSuchObject_def noSuchInstance_def
      endOfMibView_def null_def hasPrefix_1_3)

lemma check_binding_total: "\<exists>r. check_binding b = Inr r"
  by (simp add: check_binding_eq)

lemma check_loop_all_ok:
  "(\<forall>x \<in> set bs. check_binding x = Inr None) \<Longrightarrow> check_loop bs = Inr None"
  by (induction bs) simp_all

lemma check_loop_first_bad:
  "(\<forall>x \<in> set pre. check_binding x = Inr None) \<Longrightarrow> check_binding b = Inr (Some e) \<Longrightarrow>
     check_loop (pre @ b # post) = Inr (Some e)"
  by (induction pre) simp_all

lemma check_loop_None_iff:
  "check_loop bs = Inr None \<longleftrightarrow> (\<forall>x \<in> set bs. check_binding x = Inr None)"
proof (induction bs)
  case Nil
  then show ?case by simp
next
  case (Cons b bs)
  obtain r where "check_binding b = Inr r"
    using check_binding_total by blast
  with Cons show ?case
    by (cases r) simp_all
qed

lemma check_loop_total: "\<exists>r. check_loop bs = Inr r"
proof (induction bs)
  case Nil
  then show ?case by simp
next
  case (Cons b bs)
  obtain r where "check_binding b = Inr r"
    using check_binding_total by blast
  with Cons show ?case
    by (cases r) simp_all
qed

lemma check_wraps: "check resp req = Inr (Some e) \<Longrightarrow> \<exists>e'. e = InvalidResponse e'"
  by (auto simp add: check_def split: sum.splits option.splits)

lemma check_None_iff: "check resp req = Inr None \<longleftrightarrow> check_body resp req = Inr None"
  by (auto simp add: check_def split: sum.splits option.splits)

lemma check_body_passed:
  assumes "resp_ID resp = req_ID req" and "resp_ErrorStatus resp = 0"
    and "resp_Bindings resp \<noteq> []"
    and "\<not> length (resp_Bindings resp) < length (req_Bindings req)"
    and "\<not> (length (resp_Bindings resp) > length (req_Bindings req) \<and> req_Type req \<noteq> ''GetBulk'')"
  shows "check_body resp req = check_loop (resp_Bindings resp)"
  using assms unfolding check_body_def Let_def by auto


lemma check_body_None_iff:
  "check_body resp req = Inr None \<longleftrightarrow>
     resp_ID resp = req_ID req \<and> resp_ErrorStatus resp = 0 \<and> resp_Bindings resp \<noteq> []
     \<and> \<not> length (resp_Bindings resp) < length (req_Bindings req)
     \<and> \<not> (length (resp_Bindings resp) > length (req_Bindings req) \<and> req_Type req \<noteq> ''GetBulk'')
     \<and> check_loop (resp_Bindings resp) = Inr None"
proof (cases "resp_ID resp = req_ID req \<and> resp_ErrorStatus resp = 0 \<and> resp_Bindings resp \<noteq> []
     \<and> \<not> length (resp_Bindings resp) < length (req_Bindings req)
     \<and> \<not> (length (resp_Bindings resp) > length (req_Bindings req) \<and> req_Type req \<noteq> ''GetBulk'')")
  case True
  then have "check_body resp req = check_loop (resp_Bindings resp)"
    by (intro check_body_passed) simp_all
  with True show ?thesis
    by simp
next
  case False
  then have "check_body resp req \<noteq> Inr None"
    unfolding check_body_def Let_def by (auto split: sum.splits)
  with False show ?thesis
    by blast
qed


text \<open>
  The error-status rule of \<open>check\<close>, for a response with the id of the request and a
  status other than 0. The guard compares the error index with the number of bindings of
  the response, and the index expression reads the bindings of the request.
\<close>

theorem check_server_error:
  assumes "resp_ID resp = req_ID req" and "resp_ErrorStatus resp \<noteq> 0"
  shows "check resp req =
     (if 0 \<le> resp_ErrorIndex resp \<and> resp_ErrorIndex resp < int (length (resp_Bindings resp)) then
        (if resp_ErrorIndex resp < int (length (req_Bindings req))
         then Inr (Some (InvalidResponse (BindingError (req_Bindings req ! nat (resp_ErrorIndex resp))
                    (ServerError (errorStatus_String (resp_ErrorStatus resp))))))
         else Inl IndexOutOfRange)
      else Inr (Some (InvalidResponse (ServerError (errorStatus_String (resp_ErrorStatus resp))))))"
  using assms by (simp add: check_def check_body_def Let_def at_int_def)

theorem check_server_error_witness:
  "check (sample_response 2 0 [oid_value [1, 3, 6] 0 5]) (sample_request ''Get'' [[1, 3, 6]])
     = Inr (Some (InvalidResponse (BindingError (binding_of [1, 3, 6]) (ServerError ''no such name''))))
   \<and> check (sample_response 2 7 [oid_value [1, 3, 6] 0 5]) (sample_request ''Get'' [[1, 3, 6]])
     = Inr (Some (InvalidResponse (ServerError ''no such name'')))"
proof -
  have status: "errorStatus_String 2 = ''no such name''"
    by (simp add: errorStatus_String_def errorText_lookup_def errorText_def)
  have "check (sample_response 2 0 [oid_value [1, 3, 6] 0 5]) (sample_request ''Get'' [[1, 3, 6]])
     = Inr (Some (InvalidResponse (BindingError (binding_of [1, 3, 6]) (ServerError ''no such name''))))"
    using check_server_error [of "sample_response 2 0 [oid_value [1, 3, 6] 0 5]"
        "sample_request ''Get'' [[1, 3, 6]]"] status
    by (simp add: sample_response_def sample_request_def)
  moreover
  have "check (sample_response 2 7 [oid_value [1, 3, 6] 0 5]) (sample_request ''Get'' [[1, 3, 6]])
     = Inr (Some (InvalidResponse (ServerError ''no such name'')))"
    using check_server_error [of "sample_response 2 7 [oid_value [1, 3, 6] 0 5]"
        "sample_request ''Get'' [[1, 3, 6]]"] status
    by (simp add: sample_response_def sample_request_def)
  ultimately show ?thesis
    by blast
qed

text \<open>
  \<open>check\<close> returns, with nil or an error, for every response other than one with the
  id of the request, a status other than 0 and an error index that is within the bindings
  of the response and not within those of the request.
\<close>

theorem check_returns:
  assumes "resp_ID resp \<noteq> req_ID req \<or> resp_ErrorStatus resp = 0
    \<or> \<not> (0 \<le> resp_ErrorIndex resp \<and> resp_ErrorIndex resp < int (length (resp_Bindings resp)))
    \<or> resp_ErrorIndex resp < int (length (req_Bindings req))"
  shows "\<exists>r. check resp req = Inr r"
proof -
  obtain l where l: "check_loop (resp_Bindings resp) = Inr l"
    using check_loop_total by blast
  have "\<exists>r. check_body resp req = Inr r"
    using assms l unfolding check_body_def Let_def at_int_def by auto
  then obtain r where "check_body resp req = Inr r"
    by blast
  then show ?thesis
    by (cases r) (simp_all add: check_def)
qed

theorem check_returns_witness:
  "check (sample_response 0 0 [oid_value [1, 3, 6, 1] 0 4]) (sample_request ''Get'' [[1, 3, 6, 1]])
     = Inr None"
proof -
  have "\<exists>r. check (sample_response 0 0 [oid_value [1, 3, 6, 1] 0 4])
      (sample_request ''Get'' [[1, 3, 6, 1]]) = Inr r"
    by (rule check_returns) (simp add: sample_response_def)
  moreover have "check (sample_response 0 0 [oid_value [1, 3, 6, 1] 0 4])
      (sample_request ''Get'' [[1, 3, 6, 1]]) \<noteq> Inr (Some e)" for e
    by (simp add: check_def check_body_def sample_response_def sample_request_def
        oid_value_def check_binding_eq split: sum.splits option.splits)
  ultimately show ?thesis
    by (metis option.exhaust)
qed


text \<open>
  Claim C2 says that the request binding at the error index is always there under the
  guard, so that \<open>check\<close> returns. With one binding in the request, two in the
  response, a status other than 0 and the error index 1, the guard holds and
  \<open>req.Bindings[1]\<close> panics.
\<close>

theorem check_error_index_panics:
  "check (sample_response 5 1 [oid_value [1, 3, 6, 1] 0 4, oid_value [1, 3, 6, 2] 0 4])
         (sample_request ''GetBulk'' [[1, 3, 6]])
     = Inl IndexOutOfRange"
  by (simp add: check_def check_body_def sample_response_def sample_request_def at_int_def)

text \<open>
  Claim C4. The count rules, in the order of the switch, for a response with the id of the
  request and status 0: no binding in the response gives \<open>no bindings\<close>; otherwise
  fewer bindings than the request has gives \<open>missing bindings\<close>; more than the request
  has, for a type other than GetBulk, gives \<open>extraneous bindings\<close>; more than the
  request has, for GetBulk, goes on to the loop over the bindings, and \<open>check\<close>
  returns nil when the loop finds nothing.
\<close>

theorem check_binding_count:
  "(resp_ID resp = req_ID req \<and> resp_ErrorStatus resp = 0 \<and> length (resp_Bindings resp) = 0 \<longrightarrow>
      check resp req = Inr (Some (InvalidResponse NoBindings)))
   \<and> (resp_ID resp = req_ID req \<and> resp_ErrorStatus resp = 0 \<and> 0 < length (resp_Bindings resp)
        \<and> length (resp_Bindings resp) < length (req_Bindings req) \<longrightarrow>
      check resp req = Inr (Some (InvalidResponse MissingBindings)))
   \<and> (resp_ID resp = req_ID req \<and> resp_ErrorStatus resp = 0
        \<and> length (resp_Bindings resp) > length (req_Bindings req) \<and> req_Type req \<noteq> ''GetBulk'' \<longrightarrow>
      check resp req = Inr (Some (InvalidResponse ExtraneousBindings)))
   \<and> (resp_ID resp = req_ID req \<and> resp_ErrorStatus resp = 0
        \<and> length (resp_Bindings resp) > length (req_Bindings req) \<and> req_Type req = ''GetBulk'' \<longrightarrow>
      check_body resp req = check_loop (resp_Bindings resp)
      \<and> ((\<forall>b \<in> set (resp_Bindings resp). check_binding b = Inr None) \<longrightarrow> check resp req = Inr None))"
proof (intro conjI impI)
  assume "resp_ID resp = req_ID req \<and> resp_ErrorStatus resp = 0 \<and> length (resp_Bindings resp) = 0"
  then show "check resp req = Inr (Some (InvalidResponse NoBindings))"
    by (simp add: check_def check_body_def)
next
  assume "resp_ID resp = req_ID req \<and> resp_ErrorStatus resp = 0 \<and> 0 < length (resp_Bindings resp)
        \<and> length (resp_Bindings resp) < length (req_Bindings req)"
  then show "check resp req = Inr (Some (InvalidResponse MissingBindings))"
    by (auto simp add: check_def check_body_def Let_def)
next
  assume "resp_ID resp = req_ID req \<and> resp_ErrorStatus resp = 0
        \<and> length (resp_Bindings resp) > length (req_Bindings req) \<and> req_Type req \<noteq> ''GetBulk''"
  then show "check resp req = Inr (Some (InvalidResponse ExtraneousBindings))"
    by (auto simp add: check_def check_body_def Let_def)
next
  assume a: "resp_ID resp = req_ID req \<and> resp_ErrorStatus resp = 0
        \<and> length (resp_Bindings resp) > length (req_Bindings req) \<and> req_Type req = ''GetBulk''"
  then show body: "check_body resp req = check_loop (resp_Bindings resp)"
    by (intro check_body_passed) auto
  assume "\<forall>b \<in> set (resp_Bindings resp). check_binding b = Inr None"
  then have "check_loop (resp_Bindings resp) = Inr None"
    by (rule check_loop_all_ok)
  with body show "check resp req = Inr None"
    by (simp add: check_def)
qed

theorem check_binding_count_witness:
  "check (sample_response 0 0 []) (sample_request ''Get'' [[1, 3, 6]])
      = Inr (Some (InvalidResponse NoBindings))
   \<and> check (sample_response 0 0 [oid_value [1, 3, 6, 1] 0 4]) (sample_request ''Get'' [[1, 3, 6, 1], [1, 3, 6, 2]])
      = Inr (Some (InvalidResponse MissingBindings))
   \<and> check (sample_response 0 0 [oid_value [1, 3, 6, 1] 0 4, oid_value [1, 3, 6, 2] 0 4])
            (sample_request ''Get'' [[1, 3, 6]])
      = Inr (Some (InvalidResponse ExtraneousBindings))
   \<and> check (sample_response 0 0 [oid_value [1, 3, 6, 1] 0 4, oid_value [1, 3, 6, 2] 0 4])
            (sample_request ''GetBulk'' [[1, 3, 6]])
      = Inr None"
proof -
  let ?r0 = "sample_response 0 0 []"
  let ?r1 = "sample_response 0 0 [oid_value [1, 3, 6, 1] 0 4]"
  let ?r2 = "sample_response 0 0 [oid_value [1, 3, 6, 1] 0 4, oid_value [1, 3, 6, 2] 0 4]"
  have "check ?r0 (sample_request ''Get'' [[1, 3, 6]]) = Inr (Some (InvalidResponse NoBindings))"
    using check_binding_count [of ?r0 "sample_request ''Get'' [[1, 3, 6]]"]
    by (simp add: sample_response_def sample_request_def)
  moreover have "check ?r1 (sample_request ''Get'' [[1, 3, 6, 1], [1, 3, 6, 2]])
      = Inr (Some (InvalidResponse MissingBindings))"
    using check_binding_count [of ?r1 "sample_request ''Get'' [[1, 3, 6, 1], [1, 3, 6, 2]]"]
    by (simp add: sample_response_def sample_request_def)
  moreover have "check ?r2 (sample_request ''Get'' [[1, 3, 6]])
      = Inr (Some (InvalidResponse ExtraneousBindings))"
    using check_binding_count [of ?r2 "sample_request ''Get'' [[1, 3, 6]]"]
    by (simp add: sample_response_def sample_request_def)
  moreover have "check ?r2 (sample_request ''GetBulk'' [[1, 3, 6]]) = Inr None"
  proof -
    have ok: "\<forall>b \<in> set (resp_Bindings ?r2). check_binding b = Inr None"
      by (simp add: sample_response_def oid_value_def check_binding_eq)
    have pre: "resp_ID ?r2 = req_ID (sample_request ''GetBulk'' [[1, 3, 6]]) \<and> resp_ErrorStatus ?r2 = 0
        \<and> length (resp_Bindings ?r2) > length (req_Bindings (sample_request ''GetBulk'' [[1, 3, 6]]))
        \<and> req_Type (sample_request ''GetBulk'' [[1, 3, 6]]) = ''GetBulk''"
      by (simp add: sample_response_def sample_request_def)
    from check_binding_count [of ?r2 "sample_request ''GetBulk'' [[1, 3, 6]]"] pre ok
    show ?thesis by blast
  qed
  ultimately show ?thesis
    by blast
qed

text \<open>
  Claim C8. The body of the loop returns an error for a binding whose class and tag are
  those of \<open>noSuchObject\<close>, \<open>noSuchInstance\<close>, \<open>endOfMibView\<close> or \<open>null\<close>, or
  whose identifier does not start with 1, 3, and for no other. When the id, status and
  count rules pass, \<open>check\<close> returns the error of the first binding that has one, under
  \<open>invalid response\<close>; every error \<open>check\<close> returns is under \<open>invalid response\<close>;
  and \<open>check\<close> returns nil exactly when the id, status and count rules pass and no
  binding has an error.
\<close>

theorem check_bindings_content:
  "check_binding b =
     Inr (if Class (Value b) = 2 \<and> Tag (Value b) = 0 then Some (NoSuchObjectError (Name b))
          else if Class (Value b) = 2 \<and> Tag (Value b) = 1 then Some (NoSuchInstanceError (Name b))
          else if Class (Value b) = 2 \<and> Tag (Value b) = 2 then Some (EndOfMibViewError (Name b))
          else if Class (Value b) = 0 \<and> Tag (Value b) = 5 then Some (UnexpectedNull (Name b))
          else if take 2 (Name b) \<noteq> [1, 3] then Some (MissingPrefix (Name b))
          else None)
   \<and> (resp_ID resp = req_ID req \<and> resp_ErrorStatus resp = 0 \<and> resp_Bindings resp \<noteq> []
        \<and> \<not> length (resp_Bindings resp) < length (req_Bindings req)
        \<and> \<not> (length (resp_Bindings resp) > length (req_Bindings req) \<and> req_Type req \<noteq> ''GetBulk'')
        \<and> resp_Bindings resp = pre @ b # post
        \<and> (\<forall>x \<in> set pre. check_binding x = Inr None)
        \<and> check_binding b = Inr (Some e) \<longrightarrow>
      check resp req = Inr (Some (InvalidResponse e)))
   \<and> (check resp req = Inr (Some e') \<longrightarrow> (\<exists>inner. e' = InvalidResponse inner))
   \<and> (check resp req = Inr None \<longleftrightarrow>
        resp_ID resp = req_ID req \<and> resp_ErrorStatus resp = 0 \<and> resp_Bindings resp \<noteq> []
        \<and> \<not> length (resp_Bindings resp) < length (req_Bindings req)
        \<and> \<not> (length (resp_Bindings resp) > length (req_Bindings req) \<and> req_Type req \<noteq> ''GetBulk'')
        \<and> (\<forall>x \<in> set (resp_Bindings resp). check_binding x = Inr None))"
proof (intro conjI impI)
  show "check_binding b =
     Inr (if Class (Value b) = 2 \<and> Tag (Value b) = 0 then Some (NoSuchObjectError (Name b))
          else if Class (Value b) = 2 \<and> Tag (Value b) = 1 then Some (NoSuchInstanceError (Name b))
          else if Class (Value b) = 2 \<and> Tag (Value b) = 2 then Some (EndOfMibViewError (Name b))
          else if Class (Value b) = 0 \<and> Tag (Value b) = 5 then Some (UnexpectedNull (Name b))
          else if take 2 (Name b) \<noteq> [1, 3] then Some (MissingPrefix (Name b))
          else None)"
    by (rule check_binding_eq)
next
  assume a: "resp_ID resp = req_ID req \<and> resp_ErrorStatus resp = 0 \<and> resp_Bindings resp \<noteq> []
        \<and> \<not> length (resp_Bindings resp) < length (req_Bindings req)
        \<and> \<not> (length (resp_Bindings resp) > length (req_Bindings req) \<and> req_Type req \<noteq> ''GetBulk'')
        \<and> resp_Bindings resp = pre @ b # post
        \<and> (\<forall>x \<in> set pre. check_binding x = Inr None)
        \<and> check_binding b = Inr (Some e)"
  then have "check_body resp req = check_loop (resp_Bindings resp)"
    by (intro check_body_passed) blast+
  moreover from a have "check_loop (pre @ b # post) = Inr (Some e)"
    by (intro check_loop_first_bad) simp_all
  ultimately show "check resp req = Inr (Some (InvalidResponse e))"
    using a by (simp add: check_def)
next
  assume "check resp req = Inr (Some e')"
  then show "\<exists>inner. e' = InvalidResponse inner"
    by (rule check_wraps)
next
  show "check resp req = Inr None \<longleftrightarrow>
        resp_ID resp = req_ID req \<and> resp_ErrorStatus resp = 0 \<and> resp_Bindings resp \<noteq> []
        \<and> \<not> length (resp_Bindings resp) < length (req_Bindings req)
        \<and> \<not> (length (resp_Bindings resp) > length (req_Bindings req) \<and> req_Type req \<noteq> ''GetBulk'')
        \<and> (\<forall>x \<in> set (resp_Bindings resp). check_binding x = Inr None)"
    by (simp only: check_None_iff check_body_None_iff check_loop_None_iff)
qed


theorem check_bindings_content_witness:
  "check (sample_response 0 0 [oid_value [1, 3, 6, 1] 0 4, oid_value [1, 3, 6, 2] 2 2,
                                oid_value [2, 5] 0 5])
         (sample_request ''GetNext'' [[1, 3, 6, 1], [1, 3, 6, 2], [1, 3, 6, 3]])
     = Inr (Some (InvalidResponse (EndOfMibViewError [1, 3, 6, 2])))
   \<and> check (sample_response 0 0 [oid_value [1, 3, 6, 1] 0 4])
            (sample_request ''Get'' [[1, 3, 6, 1]])
     = Inr None
   \<and> check_binding (oid_value [2, 5] 0 4) = Inr (Some (MissingPrefix [2, 5]))"
proof -
  let ?resp = "sample_response 0 0 [oid_value [1, 3, 6, 1] 0 4, oid_value [1, 3, 6, 2] 2 2,
                                    oid_value [2, 5] 0 5]"
  let ?req = "sample_request ''GetNext'' [[1, 3, 6, 1], [1, 3, 6, 2], [1, 3, 6, 3]]"
  let ?b = "oid_value [1, 3, 6, 2] 2 2"
  note content = check_bindings_content [of ?b ?resp ?req "[oid_value [1, 3, 6, 1] 0 4]"
      "[oid_value [2, 5] 0 5]" "EndOfMibViewError [1, 3, 6, 2]"]
  have bad: "check_binding ?b = Inr (Some (EndOfMibViewError [1, 3, 6, 2]))"
    using content by (simp add: oid_value_def)
  have good: "\<forall>x \<in> set [oid_value [1, 3, 6, 1] 0 4]. check_binding x = Inr None"
    by (simp add: check_binding_eq oid_value_def)
  have passed: "resp_ID ?resp = req_ID ?req \<and> resp_ErrorStatus ?resp = 0 \<and> resp_Bindings ?resp \<noteq> []
      \<and> \<not> length (resp_Bindings ?resp) < length (req_Bindings ?req)
      \<and> \<not> (length (resp_Bindings ?resp) > length (req_Bindings ?req) \<and> req_Type ?req \<noteq> ''GetBulk'')
      \<and> resp_Bindings ?resp = [oid_value [1, 3, 6, 1] 0 4] @ ?b # [oid_value [2, 5] 0 5]"
    by (simp add: sample_response_def sample_request_def)
  from content passed good bad
  have first: "check ?resp ?req = Inr (Some (InvalidResponse (EndOfMibViewError [1, 3, 6, 2])))"
    by blast
  let ?resp1 = "sample_response 0 0 [oid_value [1, 3, 6, 1] 0 4]"
  let ?req1 = "sample_request ''Get'' [[1, 3, 6, 1]]"
  have "resp_ID ?resp1 = req_ID ?req1 \<and> resp_ErrorStatus ?resp1 = 0 \<and> resp_Bindings ?resp1 \<noteq> []
      \<and> \<not> length (resp_Bindings ?resp1) < length (req_Bindings ?req1)
      \<and> \<not> (length (resp_Bindings ?resp1) > length (req_Bindings ?req1) \<and> req_Type ?req1 \<noteq> ''GetBulk'')
      \<and> (\<forall>x \<in> set (resp_Bindings ?resp1). check_binding x = Inr None)"
    by (simp add: sample_response_def sample_request_def check_binding_eq oid_value_def)
  with check_bindings_content [of ?b ?resp1 ?req1]
  have second: "check ?resp1 ?req1 = Inr None"
    by blast
  have third: "check_binding (oid_value [2, 5] 0 4) = Inr (Some (MissingPrefix [2, 5]))"
    using check_bindings_content [of "oid_value [2, 5] 0 4" ?resp1 ?req1]
    by (simp add: oid_value_def)
  from first second third show ?thesis
    by blast
qed

subsection \<open>The GetBulk PDU\<close>

text \<open>What \<open>RoundTrip\<close> marshals for a GetBulk request.\<close>

theorem RoundTrip_build_GetBulk:
  assumes "req_Type req = ''GetBulk''"
  shows "RoundTrip_build community req =
     Inr (req\<lparr>req_Bindings := map (\<lambda>b. b\<lparr>Value := null\<rparr>) (req_Bindings req)\<rparr>,
          \<lparr>Version = 1, Community = bytes_of_string community,
           Data = GetBulk_pdu \<lparr>bulk_RequestID = req_ID req, NonRepeaters = 0,
                                MaxRepetitions = req_MaxRepetitions req,
                                bulk_Bindings = map (\<lambda>b. b\<lparr>Value := null\<rparr>) (req_Bindings req)\<rparr>\<rparr>)"
  using assms by (simp add: RoundTrip_build_def Let_def)

theorem RoundTrip_build_GetBulk_witness:
  "RoundTrip_build ''private'' (sample_request ''GetBulk'' [[1, 3, 6, 1], [1, 3, 6, 2]]) =
     Inr (sample_request ''GetBulk'' [[1, 3, 6, 1], [1, 3, 6, 2]],
          \<lparr>Version = 1, Community = bytes_of_string ''private'',
           Data = GetBulk_pdu \<lparr>bulk_RequestID = 42, NonRepeaters = 0, MaxRepetitions = 10,
                                bulk_Bindings = [binding_of [1, 3, 6, 1], binding_of [1, 3, 6, 2]]\<rparr>\<rparr>)"
  using RoundTrip_build_GetBulk [of "sample_request ''GetBulk'' [[1, 3, 6, 1], [1, 3, 6, 2]]" "''private''"]
  by (simp add: sample_request_def binding_of_def)

text \<open>
  Claim C1 says that the PDU carries the non-repeaters of the request. The source assigns
  \<open>p.Data.NonRepeaters = 0\<close>, next to \<open>p.Data.MaxRepetitions = req.MaxRepetitions\<close>:
  a request with \<open>NonRepeaters = 1\<close> is sent with 0.
\<close>

theorem RoundTrip_build_drops_NonRepeaters:
  "req_NonRepeaters (sample_request ''GetBulk'' [[1, 3, 6]]) = 1
   \<and> RoundTrip_build ''public'' (sample_request ''GetBulk'' [[1, 3, 6]]) =
     Inr (sample_request ''GetBulk'' [[1, 3, 6]],
          \<lparr>Version = 1, Community = bytes_of_string ''public'',
           Data = GetBulk_pdu \<lparr>bulk_RequestID = 42, NonRepeaters = 0, MaxRepetitions = 10,
                                bulk_Bindings = [binding_of [1, 3, 6]]\<rparr>\<rparr>)"
  by (simp add: RoundTrip_build_def Let_def sample_request_def binding_of_def)


end
